theory Spec2Isabelle
  imports Main "HOL-Library.List_Lexorder" "HOL-Library.Multiset"
begin

section \<open>Python values used by consolidate\_features.py\<close>

text \<open>
  A Python \<open>str\<close> is a sequence of Unicode code points. The script uses the glyphs
  U+2713 and U+25CB, which are no \<open>char\<close> of HOL, so a string is modelled as the list of
  its code points. \<open>lit\<close> turns an ASCII literal of the source into such a list.
  With \<open>List_Lexorder\<close> the order on these lists is the lexicographic order by code
  point, which is how Python compares strings.
\<close>

type_synonym str = "nat list"

definition lit :: "string \<Rightarrow> str" where
  "lit s = map of_char s"

text \<open>
  \<open>str.isspace\<close> for one code point: the white space of CPython's Unicode database.
\<close>

definition isspace :: "nat \<Rightarrow> bool" where
  "isspace c \<longleftrightarrow>
     (9 \<le> c \<and> c \<le> 13) \<or> (28 \<le> c \<and> c \<le> 32) \<or> c = 133 \<or> c = 160 \<or> c = 5760 \<or>
     (8192 \<le> c \<and> c \<le> 8202) \<or> c = 8232 \<or> c = 8233 \<or> c = 8239 \<or> c = 8287 \<or> c = 12288"

text \<open>
  \<open>s.split()\<close> with no argument: the maximal runs of characters that are not white space,
  in order; leading and trailing white space gives no empty word. \<open>split_from w cs\<close> has read
  the word \<open>w\<close> so far and goes on with \<open>cs\<close>.
\<close>

fun split_from :: "str \<Rightarrow> str \<Rightarrow> str list" where
  "split_from w [] = (if w = [] then [] else [w])"
| "split_from w (c # cs) =
     (if isspace c then (if w = [] then split_from [] cs else w # split_from [] cs)
      else split_from (w @ [c]) cs)"

definition str_split :: "str \<Rightarrow> str list" where
  "str_split s = split_from [] s"

text \<open>The decimal digits of a natural number, as an f-string prints \<open>len(group)\<close>.\<close>

fun str_of_nat :: "nat \<Rightarrow> str" where
  "str_of_nat n = (if n < 10 then [48 + n] else str_of_nat (n div 10) @ [48 + n mod 10])"

declare str_of_nat.simps [simp del]

text \<open>\<open>sep.join(parts)\<close>.\<close>

fun join :: "str \<Rightarrow> str list \<Rightarrow> str" where
  "join sep [] = []"
| "join sep [p] = p"
| "join sep (p # q # ps) = p @ sep @ join sep (q # ps)"

text \<open>\<open>range(start, stop, step)\<close> for a positive step.\<close>

definition range_step :: "nat \<Rightarrow> nat \<Rightarrow> nat \<Rightarrow> nat list" where
  "range_step start stop step =
     map (\<lambda>k. start + k * step) [0..<(stop - start + step - 1) div step]"

text \<open>
  The exceptions the script can raise or meet. \<open>StorageFault\<close> stands for an error
  of the database engine that the contents of the store do not decide, \<open>OSError\<close> for
  a failed write to the standard output. \<open>WhileHandling e2 e\<close> is the exception
  \<open>e2\<close> raised inside the handler of \<open>e\<close>, which Python keeps as its context.
\<close>

datatype exn =
    IndexError
  | AssertionError str
  | ZeroDivisionError
  | SystemExit int
  | KeyboardInterrupt
  | JSONDecodeError
  | OverflowError
  | OSError string
  | OperationalError string
  | StorageFault nat
  | WhileHandling exn exn

text \<open>
  \<open>except Exception\<close> catches the subclasses of \<open>Exception\<close>; SystemExit and
  KeyboardInterrupt are none.
\<close>

fun is_Exception :: "exn \<Rightarrow> bool" where
  "is_Exception (SystemExit _) = False"
| "is_Exception KeyboardInterrupt = False"
| "is_Exception (WhileHandling e2 e) = is_Exception e2"
| "is_Exception _ = True"

section \<open>The Feature dataclass\<close>

record Feature =
  feature_id :: int
  priority :: int
  category :: str
  name :: str
  description :: str
  steps :: "str list"
  passes :: bool
  in_progress :: bool
  blocked_by_intervention_id :: "int option"
  deferred :: bool

section \<open>get\_consolidation\_rules\<close>

text \<open>
  The dictionaries the function returns have the keys \<open>target_count\<close>, \<open>groups\<close> and
  \<open>consolidation_factor\<close>, each present or not.
\<close>

record rules =
  target_count :: "int option"
  groups :: "(nat \<times> nat \<times> str) list option"
  consolidation_factor :: "int option"

definition audio_groups :: "(nat \<times> nat \<times> str) list" where
  "audio_groups =
    [(0, 10, lit ''Setup Audio Infrastructure''),
     (10, 18, lit ''Implement Sound Effects System''),
     (18, 25, lit ''Implement Music System''),
     (25, 38, lit ''Add UI Sound Effects''),
     (38, 50, lit ''Add Snake Game Audio''),
     (50, 62, lit ''Add Tetris Game Audio''),
     (62, 72, lit ''Add Arcade-Wide Audio''),
     (72, 78, lit ''Implement Audio Accessibility''),
     (78, 85, lit ''Optimize Audio Performance''),
     (85, 92, lit ''Create Audio UI Components''),
     (92, 100, lit ''Implement Audio Persistence & Mixing'')]"

definition rules_table :: "(str \<times> rules) list" where
  "rules_table =
    [(lit ''Audio System'',
        \<lparr>target_count = Some 12, groups = Some audio_groups, consolidation_factor = None\<rparr>),
     (lit ''default'',
        \<lparr>target_count = None, groups = None, consolidation_factor = Some 3\<rparr>)]"

definition get_consolidation_rules :: "str \<Rightarrow> int \<Rightarrow> rules" where
  "get_consolidation_rules cat feature_count =
     (case map_of rules_table cat of
        Some r \<Rightarrow> r
      | None \<Rightarrow>
          \<lparr>target_count = Some (max 3 (feature_count div 3)), groups = None,
           consolidation_factor = Some 3\<rparr>)"

section \<open>merge\_steps\<close>

definition status_icon :: "Feature \<Rightarrow> str" where
  "status_icon child = (if passes child then [10003] else [9675])"

definition child_lines :: "Feature \<Rightarrow> str list" where
  "child_lines child =
     (lit ''['' @ status_icon child @ lit ''] '' @ name child)
       # map (\<lambda>step. lit ''    - '' @ step) (steps child)"

definition merge_steps :: "Feature list \<Rightarrow> str list" where
  "merge_steps child_features = concat (map child_lines child_features)"

section \<open>consolidate\_category\<close>

text \<open>
  The name of the parent of a group. \<open>group[0].name.split()[0]\<close> raises IndexError when
  the name has no word, and it is evaluated only for a group of more than one record.
\<close>

definition parent_name :: "Feature list \<Rightarrow> exn + str" where
  "parent_name grp =
     (if length grp > 1 then
        (case str_split (name (hd grp)) of
           [] \<Rightarrow> Inl IndexError
         | w # _ \<Rightarrow> Inr (lit ''Implement '' @ w @ lit '' Subsystem''))
      else Inr (name (hd grp)))"

definition parent_description :: "Feature list \<Rightarrow> str" where
  "parent_description grp =
     lit ''Bundle of '' @ str_of_nat (length grp) @ lit '' related features:'' @ [10]
       @ join [10] (map (\<lambda>f. lit ''- '' @ name f) grp)"

text \<open>
  The body of the loop: the keyword arguments of \<open>Feature(...)\<close> are evaluated in the
  order written, so \<open>group[0].id\<close> fails first on an empty group.
\<close>

definition make_parent :: "str \<Rightarrow> Feature list \<Rightarrow> exn + Feature" where
  "make_parent cat grp =
     (case grp of
        [] \<Rightarrow> Inl IndexError
      | first # _ \<Rightarrow>
          (case parent_name grp of
             Inl e \<Rightarrow> Inl e
           | Inr nm \<Rightarrow>
               Inr \<lparr>feature_id = feature_id first,
                    priority = min_list (map priority grp),
                    category = cat,
                    name = nm,
                    description = parent_description grp,
                    steps = merge_steps grp,
                    passes = list_all passes grp,
                    in_progress = list_ex in_progress grp,
                    blocked_by_intervention_id = None,
                    deferred = list_ex deferred grp\<rparr>))"

text \<open>The groups \<open>features[i:i+factor]\<close> for \<open>i\<close> in \<open>range(0, len(features), factor)\<close>.\<close>

definition groups_of :: "nat \<Rightarrow> Feature list \<Rightarrow> Feature list list" where
  "groups_of factor features =
     map (\<lambda>i. take factor (drop i features)) (range_step 0 (length features) factor)"

text \<open>The loop over the groups; an exception in any group ends the call.\<close>

fun consolidate_groups :: "str \<Rightarrow> Feature list list \<Rightarrow> exn + Feature list" where
  "consolidate_groups cat [] = Inr []"
| "consolidate_groups cat (g # gs) =
     (case make_parent cat g of
        Inl e \<Rightarrow> Inl e
      | Inr parent \<Rightarrow>
          (case consolidate_groups cat gs of
             Inl e \<Rightarrow> Inl e
           | Inr consolidated \<Rightarrow> Inr (parent # consolidated)))"

definition chunk_factor :: "nat \<Rightarrow> nat" where
  "chunk_factor n = (if n > 50 then 4 else 3)"

definition consolidate_category :: "Feature list \<Rightarrow> str \<Rightarrow> exn + Feature list" where
  "consolidate_category features cat =
     (if length features \<le> 3 then Inr features
      else
        let rules = get_consolidation_rules cat (int (length features)) in
        if consolidation_factor rules \<noteq> None then
          consolidate_groups cat (groups_of (chunk_factor (length features)) features)
        else Inr features)"

section \<open>The store\<close>

text \<open>
  The script works on one SQLite file through one connection. The engine is no part of
  the repository, so the model keeps what the script relies on: named tables holding
  rows in order, and one transaction whose \<open>ROLLBACK\<close> puts back the tables as they
  were at \<open>BEGIN\<close> (SQLite's data definition statements are transactional).
  \<open>tables\<close> is what the connection of the script sees, \<open>txn\<close> the tables saved at
  \<open>BEGIN\<close> while a transaction is open. \<open>committed\<close> is what the file holds for any
  other connection, and what is left when the connection is closed with the transaction
  still open.

  The \<open>steps\<close> column as \<open>from_row\<close> reads it: a value that is false in Python
  (\<open>NULL\<close> or the empty text), the JSON text of a list of strings, or text that
  \<open>json.loads\<close> rejects. \<open>json.dumps\<close> writes the second kind and \<open>json.loads\<close>
  reads it back.
\<close>

datatype steps_cell = NoSteps | JsonSteps "str list" | BadJson

record row =
  col_id :: int
  col_priority :: int
  col_category :: str
  col_name :: str
  col_description :: str
  col_steps :: steps_cell
  col_passes :: int
  col_in_progress :: int
  col_blocked_by_intervention_id :: "int option"
  col_deferred :: int

record db =
  tables :: "string \<rightharpoonup> row list"
  txn :: "(string \<rightharpoonup> row list) option"


definition from_row :: "row \<Rightarrow> exn + Feature" where
  "from_row r =
     (case col_steps r of
        BadJson \<Rightarrow> Inl JSONDecodeError
      | cell \<Rightarrow>
          Inr \<lparr>feature_id = col_id r,
               priority = col_priority r,
               category = col_category r,
               name = col_name r,
               description = col_description r,
               steps = (case cell of JsonSteps l \<Rightarrow> l | _ \<Rightarrow> []),
               passes = (col_passes r \<noteq> 0),
               in_progress = (col_in_progress r \<noteq> 0),
               blocked_by_intervention_id = col_blocked_by_intervention_id r,
               deferred = (col_deferred r \<noteq> 0)\<rparr>)"

fun from_rows :: "row list \<Rightarrow> exn + Feature list" where
  "from_rows [] = Inr []"
| "from_rows (r # rs) =
     (case from_row r of
        Inl e \<Rightarrow> Inl e
      | Inr f \<Rightarrow> (case from_rows rs of Inl e \<Rightarrow> Inl e | Inr fs \<Rightarrow> Inr (f # fs)))"

text \<open>
  \<open>SELECT ... FROM features ORDER BY priority\<close>; rows of equal priority are taken in
  the order of the table.
\<close>

definition get_all_features :: "db \<Rightarrow> exn + Feature list" where
  "get_all_features d =
     (case tables d ''features'' of
        None \<Rightarrow> Inl (OperationalError ''no such table: features'')
      | Some rows \<Rightarrow> from_rows (sort_key col_priority rows))"

section \<open>consolidate\_all\<close>

text \<open>
  \<open>by_category\<close> is a dictionary, which keeps its keys in the order of insertion: an
  association list with one entry for each category.
\<close>

definition by_category_add ::
  "Feature \<Rightarrow> (str \<times> Feature list) list \<Rightarrow> (str \<times> Feature list) list" where
  "by_category_add f d =
     (if category f \<notin> fst ` set d then d @ [(category f, [f])]
      else map (\<lambda>(c, fs). if c = category f then (c, fs @ [f]) else (c, fs)) d)"

definition group_by_category :: "Feature list \<Rightarrow> (str \<times> Feature list) list" where
  "group_by_category features = fold by_category_add features []"

record cat_stats =
  cat_before :: nat
  cat_after :: nat
  cat_reduction :: str

record stats =
  before :: nat
  after :: nat
  by_category :: "(str \<times> cat_stats) list"

text \<open>
  The percentages are floating point numbers printed with one decimal. Their text is a
  function of the two counts; it is the parameter \<open>pct\<close> of the model, which stands
  for \<open>f"{(before - after) / before * 100:.1f}%"\<close>. The loop below runs over the
  categories in sorted order; every category in it has at least one record.
\<close>

fun consolidate_each ::
  "(nat \<Rightarrow> nat \<Rightarrow> str) \<Rightarrow> (str \<times> Feature list) list \<Rightarrow>
     exn + (Feature list \<times> (str \<times> cat_stats) list)" where
  "consolidate_each pct [] = Inr ([], [])"
| "consolidate_each pct ((cat, cat_features) # rest) =
     (case consolidate_category cat_features cat of
        Inl e \<Rightarrow> Inl e
      | Inr consolidated \<Rightarrow>
          (case consolidate_each pct rest of
             Inl e \<Rightarrow> Inl e
           | Inr (consolidated_all, by_cat) \<Rightarrow>
               Inr (consolidated @ consolidated_all,
                    (cat, \<lparr>cat_before = length cat_features,
                           cat_after = length consolidated,
                           cat_reduction = pct (length cat_features) (length consolidated)\<rparr>)
                      # by_cat)))"

text \<open>The part of \<open>consolidate_all\<close> after the features are read.\<close>

definition consolidate_features ::
  "(nat \<Rightarrow> nat \<Rightarrow> str) \<Rightarrow> Feature list \<Rightarrow> exn + (Feature list \<times> stats)" where
  "consolidate_features pct features =
     (case consolidate_each pct (sort_key fst (group_by_category features)) of
        Inl e \<Rightarrow> Inl e
      | Inr (consolidated_all, by_cat) \<Rightarrow>
          Inr (consolidated_all,
               \<lparr>before = length features, after = length consolidated_all,
                by_category = by_cat\<rparr>))"

text \<open>\<open>consolidate_all\<close> reads the store and never writes it; \<open>dry_run\<close> is not used.\<close>

definition consolidate_all ::
  "(nat \<Rightarrow> nat \<Rightarrow> str) \<Rightarrow> db \<Rightarrow> bool \<Rightarrow> exn + (Feature list \<times> stats)" where
  "consolidate_all pct d dry_run =
     (case get_all_features d of
        Inl e \<Rightarrow> Inl e
      | Inr features \<Rightarrow> consolidate_features pct features)"

section \<open>validate\<close>

text \<open>
  What the script prints: one constructor for each \<open>print\<close> that carries data or a
  verdict, with its data. The headings (\<open>=== Validation ===\<close> and the like) are
  left out; \<open>Banner\<close> stands for the three opening lines, of which the mode line
  depends on \<open>dry_run\<close>.
\<close>

datatype line =
    Usage
  | Banner bool
  | StatsOriginal nat
  | StatsConsolidated nat
  | StatsReduction str
  | StatsCategory str nat nat str
  | ValidationOriginalFeatures nat
  | ValidationConsolidatedFeatures nat
  | ValidationOriginalSteps nat
  | ValidationConsolidatedSteps nat
  | StepCountDecreased
  | StepsPreserved nat
  | ValidationPassed
  | ExecutingMigration
  | MigrationSuccessful
  | MigrationFailed exn
  | DryRunNoChanges

definition total_steps :: "Feature list \<Rightarrow> nat" where
  "total_steps fs = sum_list (map (\<lambda>f. length (steps f)) fs)"

text \<open>
  The two \<open>assert\<close> statements raise AssertionError; the comparison of the step counts
  only chooses what is printed.
\<close>

definition validate :: "Feature list \<Rightarrow> Feature list \<Rightarrow> line list \<times> (exn + unit)" where
  "validate original consolidated =
     (let orig_steps = total_steps original;
          cons_steps = total_steps consolidated;
          printed = [ValidationOriginalFeatures (length original),
                     ValidationConsolidatedFeatures (length consolidated),
                     ValidationOriginalSteps orig_steps,
                     ValidationConsolidatedSteps cons_steps]
      in
        if \<not> length consolidated < length original then
          (printed, Inl (AssertionError (lit ''No consolidation happened!'')))
        else if \<not> (length consolidated \<ge> 250 \<and> length consolidated \<le> 600) then
          (printed,
           Inl (AssertionError (lit ''Target range missed: '' @ str_of_nat (length consolidated))))
        else
          (printed
             @ [if cons_steps < orig_steps then StepCountDecreased
                else StepsPreserved (cons_steps - orig_steps)]
             @ [ValidationPassed],
           Inr ()))"

section \<open>execute\_migration\<close>

text \<open>
  The SQL statements the script sends, and what each does to the store. The errors are
  those of SQLite, raised by the \<open>sqlite3\<close> module as OperationalError; an integer
  outside 64 bits cannot be bound to a parameter of \<open>INSERT\<close> and raises OverflowError.
\<close>

datatype stmt =
    Begin
  | CreateEmptyLike string string
  | InsertInto string row
  | DropIfExists string
  | RenameTo string string
  | Commit
  | Rollback

definition fits_int64 :: "int \<Rightarrow> bool" where
  "fits_int64 v \<longleftrightarrow> - (2 ^ 63) \<le> v \<and> v < 2 ^ 63"

definition row_fits :: "row \<Rightarrow> bool" where
  "row_fits r \<longleftrightarrow>
     fits_int64 (col_id r) \<and> fits_int64 (col_priority r) \<and> fits_int64 (col_passes r) \<and>
     fits_int64 (col_in_progress r) \<and>
     (case col_blocked_by_intervention_id r of None \<Rightarrow> True | Some b \<Rightarrow> fits_int64 b) \<and>
     fits_int64 (col_deferred r)"

fun exec :: "stmt \<Rightarrow> db \<Rightarrow> exn + db" where
  "exec Begin d =
     (if txn d \<noteq> None then
        Inl (OperationalError ''cannot start a transaction within a transaction'')
      else Inr (d\<lparr>txn := Some (tables d)\<rparr>))"
| "exec (CreateEmptyLike new src) d =
     (if tables d new \<noteq> None then
        Inl (OperationalError (''table '' @ new @ '' already exists''))
      else if tables d src = None then Inl (OperationalError (''no such table: '' @ src))
      else Inr (d\<lparr>tables := (tables d)(new \<mapsto> [])\<rparr>))"
| "exec (InsertInto t r) d =
     (case tables d t of
        None \<Rightarrow> Inl (OperationalError (''no such table: '' @ t))
      | Some rows \<Rightarrow>
          if \<not> row_fits r then Inl OverflowError
          else Inr (d\<lparr>tables := (tables d)(t \<mapsto> rows @ [r])\<rparr>))"
| "exec (DropIfExists t) d = Inr (d\<lparr>tables := (tables d)(t := None)\<rparr>)"
| "exec (RenameTo old new) d =
     (case tables d old of
        None \<Rightarrow> Inl (OperationalError (''no such table: '' @ old))
      | Some rows \<Rightarrow>
          if tables d new \<noteq> None then
            Inl (OperationalError
                  (''there is already another table or index with this name: '' @ new))
          else Inr (d\<lparr>tables := (tables d)(old := None, new \<mapsto> rows)\<rparr>))"
| "exec Commit d =
     (if txn d = None then Inl (OperationalError ''cannot commit - no transaction is active'')
      else Inr (d\<lparr>txn := None\<rparr>))"
| "exec Rollback d =
     (case txn d of
        None \<Rightarrow> Inl (OperationalError ''cannot rollback - no transaction is active'')
      | Some saved \<Rightarrow> Inr (d\<lparr>tables := saved, txn := None\<rparr>))"

text \<open>
  An operation can also fail for a reason outside the store's contents: a full disk or a
  lost connection for a statement, a closed pipe for a \<open>print\<close>, a key pressed by the
  user. The operations of \<open>execute_migration\<close> are numbered in the order of the program
  text: 0 the heading printed before \<open>try\<close>; from 1 the statements of the \<open>try\<close>
  block, one \<open>INSERT\<close> for each record; after them the \<open>print\<close> that follows
  \<open>COMMIT\<close> inside the \<open>try\<close> block; then the \<open>ROLLBACK\<close> and the \<open>print\<close> of
  the handler. \<open>F k = Some (e, auto)\<close> makes operation \<open>k\<close> raise \<open>e\<close>. For a
  statement, \<open>auto\<close> says that the engine has ended the transaction by itself, as SQLite
  does for some errors; a failed statement changes no table. For a \<open>print\<close> the flag
  has no meaning.
\<close>

type_synonym faults = "nat \<Rightarrow> (exn \<times> bool) option"

definition abort :: "db \<Rightarrow> db" where
  "abort d = (case txn d of None \<Rightarrow> d | Some saved \<Rightarrow> d\<lparr>tables := saved, txn := None\<rparr>)"

definition cursor_execute :: "faults \<Rightarrow> nat \<Rightarrow> stmt \<Rightarrow> db \<Rightarrow> exn option \<times> db" where
  "cursor_execute F k s d =
     (case F k of
        Some (e, auto) \<Rightarrow> (Some e, if auto then abort d else d)
      | None \<Rightarrow> (case exec s d of Inl e \<Rightarrow> (Some e, d) | Inr d' \<Rightarrow> (None, d')))"

text \<open>Statements in order, the first numbered \<open>k\<close>, up to the first that raises.\<close>

fun run :: "faults \<Rightarrow> nat \<Rightarrow> stmt list \<Rightarrow> db \<Rightarrow> exn option \<times> db" where
  "run F k [] d = (None, d)"
| "run F k (s # ss) d =
     (case cursor_execute F k s d of
        (Some e, d') \<Rightarrow> (Some e, d')
      | (None, d') \<Rightarrow> run F (Suc k) ss d')"

definition to_row :: "Feature \<Rightarrow> row" where
  "to_row f =
     \<lparr>col_id = feature_id f,
      col_priority = priority f,
      col_category = category f,
      col_name = name f,
      col_description = description f,
      col_steps = JsonSteps (steps f),
      col_passes = (if passes f then 1 else 0),
      col_in_progress = (if in_progress f then 1 else 0),
      col_blocked_by_intervention_id = blocked_by_intervention_id f,
      col_deferred = (if deferred f then 1 else 0)\<rparr>"

text \<open>The statements of the \<open>try\<close> block.\<close>

definition migration_script :: "Feature list \<Rightarrow> stmt list" where
  "migration_script consolidated =
     [Begin, CreateEmptyLike ''features_consolidated'' ''features'']
       @ map (\<lambda>f. InsertInto ''features_consolidated'' (to_row f)) consolidated
       @ [DropIfExists ''features_old'',
          RenameTo ''features'' ''features_old'',
          RenameTo ''features_consolidated'' ''features'',
          Commit]"

text \<open>
  The \<open>try\<close> block: the statements, then the \<open>print\<close> of success, which is still
  inside the block.
\<close>

definition try_block :: "faults \<Rightarrow> Feature list \<Rightarrow> db \<Rightarrow> exn option \<times> db" where
  "try_block F consolidated d =
     (case run F 1 (migration_script consolidated) d of
        (Some e, d') \<Rightarrow> (Some e, d')
      | (None, d') \<Rightarrow>
          (case F (length (migration_script consolidated) + 1) of
             Some (e, _) \<Rightarrow> (Some e, d')
           | None \<Rightarrow> (None, d')))"

text \<open>
  The handler of \<open>e\<close>: \<open>ROLLBACK\<close>, the \<open>print\<close> of the failure, and \<open>raise\<close>.
  When \<open>ROLLBACK\<close> or the \<open>print\<close> raises, that exception leaves the handler, with
  \<open>e\<close> as its context.
\<close>

definition handler :: "faults \<Rightarrow> nat \<Rightarrow> exn \<Rightarrow> db \<Rightarrow> db \<times> line list \<times> (exn + unit)" where
  "handler F n e d =
     (case cursor_execute F (n + 2) Rollback d of
        (Some e2, d') \<Rightarrow> (d', [ExecutingMigration], Inl (WhileHandling e2 e))
      | (None, d') \<Rightarrow>
          (case F (n + 3) of
             Some (e3, _) \<Rightarrow> (d', [ExecutingMigration], Inl (WhileHandling e3 e))
           | None \<Rightarrow> (d', [ExecutingMigration, MigrationFailed e], Inl e)))"

text \<open>
  An exception of the \<open>try\<close> block that is no \<open>Exception\<close> is not caught: it leaves
  the call with no \<open>ROLLBACK\<close> sent.
\<close>

definition execute_migration ::
  "faults \<Rightarrow> Feature list \<Rightarrow> db \<Rightarrow> db \<times> line list \<times> (exn + unit)" where
  "execute_migration F consolidated d =
     (case F 0 of
        Some (e, _) \<Rightarrow> (d, [], Inl e)
      | None \<Rightarrow>
          (case try_block F consolidated d of
             (None, d') \<Rightarrow> (d', [ExecutingMigration, MigrationSuccessful], Inr ())
           | (Some e, d') \<Rightarrow>
               if is_Exception e then
                 handler F (length (migration_script consolidated)) e d'
               else (d', [ExecutingMigration], Inl e)))"

section \<open>main\<close>

record args =
  dry_run :: bool
  execute :: bool

definition stats_lines :: "(nat \<Rightarrow> nat \<Rightarrow> str) \<Rightarrow> stats \<Rightarrow> line list" where
  "stats_lines pct st =
     [StatsOriginal (before st), StatsConsolidated (after st),
      StatsReduction (pct (before st) (after st))]
       @ map (\<lambda>(cat, cs). StatsCategory cat (cat_before cs) (cat_after cs) (cat_reduction cs))
           (take 10 (by_category st))"

text \<open>
  \<open>main\<close> after the arguments are parsed. The overall reduction divides by the number
  of features read, which raises ZeroDivisionError on an empty table.
\<close>

definition main ::
  "(nat \<Rightarrow> nat \<Rightarrow> str) \<Rightarrow> faults \<Rightarrow> args \<Rightarrow> db \<Rightarrow> db \<times> line list \<times> (exn + unit)" where
  "main pct F a d =
     (if \<not> dry_run a \<and> \<not> execute a then (d, [Usage], Inl (SystemExit 1))
      else
        case get_all_features d of
          Inl e \<Rightarrow> (d, [Banner (dry_run a)], Inl e)
        | Inr original \<Rightarrow>
            (case consolidate_all pct d (dry_run a) of
               Inl e \<Rightarrow> (d, [Banner (dry_run a)], Inl e)
             | Inr (consolidated, st) \<Rightarrow>
                 if before st = 0 then
                   (d, [Banner (dry_run a), StatsOriginal (before st),
                        StatsConsolidated (after st)],
                    Inl ZeroDivisionError)
                 else
                   (case validate original consolidated of
                      (checked, Inl e) \<Rightarrow>
                        (d, Banner (dry_run a) # stats_lines pct st @ checked, Inl e)
                    | (checked, Inr _) \<Rightarrow>
                        if execute a then
                          (case execute_migration F consolidated d of
                             (d', migrated, r) \<Rightarrow>
                               (d', Banner (dry_run a) # stats_lines pct st @ checked @ migrated,
                                r))
                        else
                          (d, Banner (dry_run a) # stats_lines pct st @ checked
                                @ [DryRunNoChanges],
                           Inr ()))))"

section \<open>Predicates of the specification\<close>

text \<open>
  \<open>is_substring s t\<close> is Python's \<open>s in t\<close> for strings. A step is located in a record
  when it is a substring of one of the strings of the record's \<open>steps\<close>.
\<close>

definition is_substring :: "str \<Rightarrow> str \<Rightarrow> bool" where
  "is_substring s t = list_ex (\<lambda>i. take (length s) (drop i t) = s) [0..<Suc (length t)]"

definition step_located :: "str \<Rightarrow> Feature \<Rightarrow> bool" where
  "step_located s p = list_ex (is_substring s) (steps p)"

definition records_containing :: "str \<Rightarrow> Feature list \<Rightarrow> Feature list" where
  "records_containing s out = filter (step_located s) out"


section \<open>Test data\<close>

text \<open>
  Records of a category without a rule of its own. In \<open>sample_features\<close> the first and
  the fourth record have the same step; in \<open>blank_features\<close> the name of the first
  record is white space only.
\<close>

definition sample_feature :: "int \<Rightarrow> str \<Rightarrow> str list \<Rightarrow> bool \<Rightarrow> bool \<Rightarrow> Feature" where
  "sample_feature i nm st ps ip =
     \<lparr>feature_id = i, priority = 10 - i, category = lit ''Core'', name = nm,
      description = [], steps = st, passes = ps, in_progress = ip,
      blocked_by_intervention_id = Some 7, deferred = False\<rparr>"

definition sample_features :: "Feature list" where
  "sample_features =
     [sample_feature 1 (lit ''Add login form'') [lit ''Run tests''] True False,
      sample_feature 2 (lit ''Add logout'') [lit ''Click logout''] True False,
      sample_feature 3 (lit ''Add session'') [] False True,
      sample_feature 4 (lit ''Render board'') [lit ''Run tests''] False False]"

definition blank_features :: "Feature list" where
  "blank_features =
     [sample_feature 1 (lit ''   '') [] True False,
      sample_feature 2 (lit ''Add logout'') [] True False,
      sample_feature 3 (lit ''Add session'') [] False True,
      sample_feature 4 (lit ''Render board'') [] False False]"

text \<open>
  The same records in the category with the hand-written partition, a store whose
  \<open>features\<close> table holds \<open>sample_features\<close>, and a stand-in for the text of a percentage.
\<close>

definition audio_features :: "Feature list" where
  "audio_features = map (\<lambda>f. f\<lparr>category := lit ''Audio System''\<rparr>) sample_features"

definition sample_db :: db where
  "sample_db = \<lparr>tables = [''features'' \<mapsto> map to_row sample_features], txn = None\<rparr>"

definition sample_pct :: "nat \<Rightarrow> nat \<Rightarrow> str" where
  "sample_pct b a = []"

definition no_faults :: faults where
  "no_faults k = None"


definition preview :: args where
  "preview = \<lparr>dry_run = True, execute = False\<rparr>"


section \<open>The groups of the loop\<close>

lemma groups_of_alt:
  "groups_of k fs = map (\<lambda>j. take k (drop (j * k) fs)) [0..<(length fs + k - 1) div k]"
  by (simp add: groups_of_def range_step_def comp_def)

lemma groups_of_Nil: "0 < k \<Longrightarrow> groups_of k [] = []"
  by (simp add: groups_of_def range_step_def)

lemma ceil_step:
  fixes n k :: nat
  assumes "0 < k" "0 < n"
  shows "(n + k - 1) div k = Suc ((n - k + k - 1) div k)"
proof (cases "n \<le> k")
  case True
  have "n + k - 1 = k + (n - 1)" using assms by simp
  then have "(n + k - 1) div k = (k + (n - 1)) div k" by (rule arg_cong)
  also have "\<dots> = (n - 1) div k + 1"
    using assms(1) by (simp only: div_add_self1)
  finally have "(n + k - 1) div k = (n - 1) div k + 1" .
  moreover have "(n - 1) div k = 0" using True assms by simp
  moreover have "(n - k + k - 1) div k = 0" using True assms by simp
  ultimately show ?thesis by simp
next
  case False
  then have "n + k - 1 = k + (n - k + k - 1)" by simp
  then have "(n + k - 1) div k = (k + (n - k + k - 1)) div k" by (rule arg_cong)
  also have "\<dots> = (n - k + k - 1) div k + 1"
    using assms(1) by (simp only: div_add_self1)
  finally show ?thesis by simp
qed

lemma upt_Suc_shift: "[0..<Suc m] = 0 # map Suc [0..<m]"
  by (simp add: upt_conv_Cons map_Suc_upt del: upt_Suc)

lemma groups_of_rec:
  assumes "0 < k" "fs \<noteq> []"
  shows "groups_of k fs = take k fs # groups_of k (drop k fs)"
proof -
  let ?n = "length fs"
  let ?m = "(?n - k + k - 1) div k"
  have n: "0 < ?n" using assms by simp
  have c: "(?n + k - 1) div k = Suc ?m"
    using ceil_step [OF assms(1) n] .
  have "groups_of k fs = map (\<lambda>j. take k (drop (j * k) fs)) [0..<Suc ?m]"
    by (simp only: groups_of_alt c)
  also have "\<dots> = take k fs # map (\<lambda>j. take k (drop (Suc j * k) fs)) [0..<?m]"
    by (simp only: upt_Suc_shift list.map map_map comp_def mult_0 drop_0)
  also have "map (\<lambda>j. take k (drop (Suc j * k) fs)) [0..<?m] = groups_of k (drop k fs)"
    by (simp add: groups_of_alt add.commute)
  finally show ?thesis .
qed

lemma concat_groups_of: "0 < k \<Longrightarrow> concat (groups_of k fs) = fs"
proof (induction fs rule: length_induct)
  case (1 fs)
  show ?case
  proof (cases "fs = []")
    case True
    with 1 show ?thesis by (simp add: groups_of_Nil)
  next
    case False
    with 1 have "length (drop k fs) < length fs" by simp
    with 1 have "concat (groups_of k (drop k fs)) = drop k fs" by blast
    with False 1 show ?thesis by (simp add: groups_of_rec)
  qed
qed

lemma length_groups_of: "length (groups_of k fs) = (length fs + k - 1) div k"
  by (simp add: groups_of_alt)

lemma groups_of_nth:
  "i < length (groups_of k fs) \<Longrightarrow> groups_of k fs ! i = take k (drop (i * k) fs)"
  by (simp add: groups_of_alt)

lemma groups_of_nonempty:
  assumes "0 < k" "g \<in> set (groups_of k fs)"
  shows "g \<noteq> [] \<and> length g \<le> k"
  using assms
proof (induction fs rule: length_induct)
  case (1 fs)
  show ?case
  proof (cases "fs = []")
    case True
    with 1 show ?thesis by (simp add: groups_of_Nil)
  next
    case False
    with 1 have "length (drop k fs) < length fs" by simp
    with 1 have "g \<in> set (groups_of k (drop k fs)) \<Longrightarrow> g \<noteq> [] \<and> length g \<le> k" by blast
    with False 1 show ?thesis by (auto simp add: groups_of_rec)
  qed
qed

section \<open>Parents and the loop over the groups\<close>

lemma split_from_Nil_iff: "split_from w s = [] \<longleftrightarrow> w = [] \<and> (\<forall>c\<in>set s. isspace c)"
  by (induction s arbitrary: w) auto

lemma str_split_Nil_iff: "str_split s = [] \<longleftrightarrow> (\<forall>c\<in>set s. isspace c)"
  by (simp add: str_split_def split_from_Nil_iff)

lemma parent_name_Inl_iff:
  "parent_name g = Inl e \<longleftrightarrow> e = IndexError \<and> 1 < length g \<and> str_split (name (hd g)) = []"
  by (auto simp: parent_name_def split: list.splits)

lemma make_parent_Cons:
  "make_parent cat (f # fs) =
     (case parent_name (f # fs) of
        Inl e \<Rightarrow> Inl e
      | Inr nm \<Rightarrow>
          Inr \<lparr>feature_id = feature_id f,
               priority = min_list (map priority (f # fs)),
               category = cat,
               name = nm,
               description = parent_description (f # fs),
               steps = merge_steps (f # fs),
               passes = list_all passes (f # fs),
               in_progress = list_ex in_progress (f # fs),
               blocked_by_intervention_id = None,
               deferred = list_ex deferred (f # fs)\<rparr>)"
  by (simp add: make_parent_def)

lemma make_parent_Inl_iff:
  "make_parent cat g = Inl e \<longleftrightarrow>
     e = IndexError \<and> (g = [] \<or> (1 < length g \<and> str_split (name (hd g)) = []))"
proof (cases g)
  case Nil
  then show ?thesis by (auto simp: make_parent_def)
next
  case (Cons f fs)
  show ?thesis
  proof (cases "parent_name g")
    case (Inl a)
    with Cons parent_name_Inl_iff [of g a] show ?thesis
      by (simp only: make_parent_Cons sum.case) auto
  next
    case (Inr nm)
    with Cons parent_name_Inl_iff [of g e] show ?thesis
      by (simp only: make_parent_Cons sum.case) auto
  qed
qed

lemma make_parent_Inr:
  assumes "make_parent cat g = Inr p"
  shows "g \<noteq> []"
    and "feature_id p = feature_id (hd g)"
    and "priority p = min_list (map priority g)"
    and "category p = cat"
    and "description p = parent_description g"
    and "steps p = merge_steps g"
    and "passes p = list_all passes g"
    and "in_progress p = list_ex in_progress g"
    and "blocked_by_intervention_id p = None"
    and "deferred p = list_ex deferred g"
    and "parent_name g = Inr (name p)"
proof -
  from assms obtain f fs where g: "g = f # fs"
    by (cases g) (simp_all add: make_parent_def)
  from assms g obtain nm where nm: "parent_name g = Inr nm"
    by (cases "parent_name g") (simp_all add: make_parent_Cons)
  from assms have p: "p = \<lparr>feature_id = feature_id f,
               priority = min_list (map priority g),
               category = cat,
               name = nm,
               description = parent_description g,
               steps = merge_steps g,
               passes = list_all passes g,
               in_progress = list_ex in_progress g,
               blocked_by_intervention_id = None,
               deferred = list_ex deferred g\<rparr>"
    unfolding g make_parent_Cons using nm [unfolded g] by simp
  show "g \<noteq> []" using g by simp
  show "feature_id p = feature_id (hd g)" by (simp add: p g)
  show "priority p = min_list (map priority g)" by (simp add: p)
  show "category p = cat" by (simp add: p)
  show "description p = parent_description g" by (simp add: p)
  show "steps p = merge_steps g" by (simp add: p)
  show "passes p = list_all passes g" by (simp add: p)
  show "in_progress p = list_ex in_progress g" by (simp add: p)
  show "blocked_by_intervention_id p = None" by (simp add: p)
  show "deferred p = list_ex deferred g" by (simp add: p)
  show "parent_name g = Inr (name p)" by (simp add: p nm)
qed

lemma consolidate_groups_Inr_imp:
  "consolidate_groups cat gs = Inr out \<Longrightarrow> list_all2 (\<lambda>g p. make_parent cat g = Inr p) gs out"
proof (induction gs arbitrary: out)
  case Nil
  then show ?case by simp
next
  case (Cons g gs)
  from Cons.prems obtain p ps where
    "make_parent cat g = Inr p" "consolidate_groups cat gs = Inr ps" "out = p # ps"
    by (auto split: sum.splits)
  with Cons.IH show ?case by simp
qed

lemma consolidate_groups_Inr_conv:
  "list_all2 (\<lambda>g p. make_parent cat g = Inr p) gs out \<Longrightarrow> consolidate_groups cat gs = Inr out"
  by (induction gs out rule: list_all2_induct) simp_all

lemma consolidate_groups_Inl_iff:
  "(\<exists>e. consolidate_groups cat gs = Inl e) \<longleftrightarrow> (\<exists>g\<in>set gs. \<exists>e. make_parent cat g = Inl e)"
proof (induction gs)
  case Nil
  then show ?case by simp
next
  case (Cons g gs)
  show ?case
  proof (cases "make_parent cat g")
    case (Inl e)
    then show ?thesis by auto
  next
    case (Inr p)
    then show ?thesis using Cons.IH
      by (cases "consolidate_groups cat gs") auto
  qed
qed

lemma consolidate_groups_Inl_IndexError:
  "consolidate_groups cat gs = Inl e \<Longrightarrow> e = IndexError"
proof (induction gs)
  case Nil
  then show ?case by simp
next
  case (Cons g gs)
  then show ?case
    by (cases "make_parent cat g"; cases "consolidate_groups cat gs")
       (simp_all add: make_parent_Inl_iff)
qed

lemma has_factor_iff:
  "consolidation_factor (get_consolidation_rules cat n) \<noteq> None \<longleftrightarrow> cat \<noteq> lit ''Audio System''"
  by (simp add: get_consolidation_rules_def rules_table_def lit_def)

lemma chunk_factor_pos: "0 < chunk_factor n"
  by (simp add: chunk_factor_def)

lemma consolidate_category_small:
  "length features \<le> 3 \<Longrightarrow> consolidate_category features cat = Inr features"
  by (simp add: consolidate_category_def)

lemma consolidate_category_audio:
  "consolidate_category features (lit ''Audio System'') = Inr features"
  using has_factor_iff [of "lit ''Audio System''"]
  by (simp add: consolidate_category_def Let_def)

lemma consolidate_category_chunked:
  "3 < length features \<Longrightarrow> cat \<noteq> lit ''Audio System'' \<Longrightarrow>
   consolidate_category features cat =
     consolidate_groups cat (groups_of (chunk_factor (length features)) features)"
  using has_factor_iff [of cat]
  by (simp add: consolidate_category_def Let_def)

section \<open>Steps under merging\<close>

lemma is_substring_iff: "is_substring s t \<longleftrightarrow> (\<exists>a b. t = a @ s @ b)"
proof
  assume "is_substring s t"
  then have "\<exists>i\<in>set [0..<Suc (length t)]. take (length s) (drop i t) = s"
    by (simp only: is_substring_def list_ex_iff)
  then obtain i where i: "i \<le> length t" "take (length s) (drop i t) = s"
    by (auto simp: less_Suc_eq_le simp del: upt_Suc)
  have "t = take i t @ drop i t"
    by (simp only: append_take_drop_id)
  also have "drop i t = take (length s) (drop i t) @ drop (length s) (drop i t)"
    by (simp only: append_take_drop_id)
  finally have "t = take i t @ take (length s) (drop i t) @ drop (length s) (drop i t)" .
  with i(2) have "t = take i t @ s @ drop (length s) (drop i t)" by simp
  then show "\<exists>a b. t = a @ s @ b" by blast
next
  assume "\<exists>a b. t = a @ s @ b"
  then obtain a b where t: "t = a @ s @ b" by blast
  then have "length a \<le> length t" "take (length s) (drop (length a) t) = s" by simp_all
  then have "\<exists>i\<in>set [0..<Suc (length t)]. take (length s) (drop i t) = s"
    by (intro bexI [of _ "length a"]) (simp_all del: upt_Suc)
  then show "is_substring s t" by (simp add: is_substring_def list_ex_iff)
qed

lemma is_substring_refl: "is_substring s s"
  unfolding is_substring_iff by (intro exI [of _ "[]"]) simp

lemma is_substring_prefixed: "is_substring s (a @ s)"
  unfolding is_substring_iff by (intro exI [of _ a] exI [of _ "[]"]) simp

lemma step_located_self: "s \<in> set (steps f) \<Longrightarrow> step_located s f"
  unfolding step_located_def list_ex_iff using is_substring_refl by blast

lemma merge_steps_has_step:
  "f \<in> set g \<Longrightarrow> s \<in> set (steps f) \<Longrightarrow> lit ''    - '' @ s \<in> set (merge_steps g)"
  by (auto simp: merge_steps_def child_lines_def)

lemma length_merge_steps: "length (merge_steps g) = total_steps g + length g"
  by (induction g) (simp_all add: merge_steps_def child_lines_def total_steps_def)

lemma total_steps_append: "total_steps (xs @ ys) = total_steps xs + total_steps ys"
  by (simp add: total_steps_def)

lemma total_steps_concat: "total_steps (concat gs) = sum_list (map total_steps gs)"
  by (induction gs) (simp_all add: total_steps_append, simp add: total_steps_def)

lemma total_steps_parents:
  "list_all2 (\<lambda>g p. make_parent cat g = Inr p) gs out \<Longrightarrow>
   total_steps out = sum_list (map total_steps gs) + length (concat gs)"
proof (induction gs out rule: list_all2_induct)
  case Nil
  then show ?case by (simp add: total_steps_def)
next
  case (Cons g gs p ps)
  from Cons.hyps(1) have "length (steps p) = total_steps g + length g"
    by (simp add: make_parent_Inr(6) length_merge_steps)
  moreover have "total_steps (p # ps) = length (steps p) + total_steps ps"
    by (simp add: total_steps_def)
  ultimately show ?case using Cons.IH by simp
qed

lemma consolidate_category_total_steps:
  assumes "consolidate_category features cat = Inr out"
  shows "total_steps out = total_steps features \<or>
         total_steps out = total_steps features + length features"
proof (cases "3 < length features \<and> cat \<noteq> lit ''Audio System''")
  case True
  let ?gs = "groups_of (chunk_factor (length features)) features"
  from True assms have "consolidate_groups cat ?gs = Inr out"
    by (simp add: consolidate_category_chunked)
  then have "list_all2 (\<lambda>g p. make_parent cat g = Inr p) ?gs out"
    by (rule consolidate_groups_Inr_imp)
  then have "total_steps out = sum_list (map total_steps ?gs) + length (concat ?gs)"
    by (rule total_steps_parents)
  moreover have "concat ?gs = features"
    by (simp add: concat_groups_of chunk_factor_pos)
  ultimately show ?thesis
    using total_steps_concat [of ?gs] by simp
next
  case False
  then have "consolidate_category features cat = Inr features"
    using consolidate_category_small [of features cat] consolidate_category_audio [of features]
    by (cases "length features \<le> 3") auto
  with assms show ?thesis by simp
qed

lemma parents_locate_steps:
  assumes "list_all2 (\<lambda>g p. make_parent cat g = Inr p) gs out"
    and "g \<in> set gs" and "f \<in> set g" and "s \<in> set (steps f)"
  shows "\<exists>p\<in>set out. step_located s p"
proof -
  from assms(2) obtain i where i: "i < length gs" "gs ! i = g"
    by (auto simp: in_set_conv_nth)
  from assms(1) i have "make_parent cat g = Inr (out ! i)" "i < length out"
    by (auto simp: list_all2_conv_all_nth)
  then obtain p where p: "p \<in> set out" "make_parent cat g = Inr p"
    using nth_mem by blast
  from p(2) have "steps p = merge_steps g" by (rule make_parent_Inr(6))
  with assms(3,4) have "lit ''    - '' @ s \<in> set (steps p)"
    by (simp add: merge_steps_has_step)
  then have "step_located s p"
    by (auto simp: step_located_def list_ex_iff intro: is_substring_prefixed)
  with p(1) show ?thesis by blast
qed

lemma consolidate_category_locates:
  assumes "consolidate_category features cat = Inr out"
    and "f \<in> set features" and "s \<in> set (steps f)"
  shows "\<exists>p\<in>set out. step_located s p"
proof (cases "3 < length features \<and> cat \<noteq> lit ''Audio System''")
  case True
  let ?gs = "groups_of (chunk_factor (length features)) features"
  from True assms(1) have "consolidate_groups cat ?gs = Inr out"
    by (simp add: consolidate_category_chunked)
  then have all2: "list_all2 (\<lambda>g p. make_parent cat g = Inr p) ?gs out"
    by (rule consolidate_groups_Inr_imp)
  have "concat ?gs = features"
    by (simp add: concat_groups_of chunk_factor_pos)
  with assms(2) have "f \<in> set (concat ?gs)" by simp
  then obtain g where g: "g \<in> set ?gs" "f \<in> set g" by auto
  show ?thesis using parents_locate_steps [OF all2 g assms(3)] .
next
  case False
  then have "consolidate_category features cat = Inr features"
    using consolidate_category_small [of features cat] consolidate_category_audio [of features]
    by (cases "length features \<le> 3") auto
  with assms show ?thesis by (auto intro: step_located_self)
qed

section \<open>Grouping by category\<close>

lemma mset_eq_total_steps: "mset xs = mset ys \<Longrightarrow> total_steps xs = total_steps ys"
proof -
  assume "mset xs = mset ys"
  then have "image_mset (\<lambda>f. length (steps f)) (mset xs) = image_mset (\<lambda>f. length (steps f)) (mset ys)"
    by simp
  then have "mset (map (\<lambda>f. length (steps f)) xs) = mset (map (\<lambda>f. length (steps f)) ys)"
    by simp
  then have "sum_mset (mset (map (\<lambda>f. length (steps f)) xs)) = sum_mset (mset (map (\<lambda>f. length (steps f)) ys))"
    by (rule arg_cong)
  then show ?thesis by (simp only: sum_mset_sum_list total_steps_def)
qed

lemma mset_concat_perm: "mset ds = mset es \<Longrightarrow> mset (concat (map snd ds)) = mset (concat (map snd es))"
proof -
  assume a: "mset ds = mset es"
  have h: "mset (concat (map snd xs)) = sum_mset (image_mset (\<lambda>x. mset (snd x)) (mset xs))" for xs
    by (induction xs) simp_all
  show ?thesis by (simp only: h a)
qed

lemma by_category_update_absent:
  "c \<notin> fst ` set d \<Longrightarrow> map (\<lambda>(k, fs). if k = c then (k, fs @ [f]) else (k, fs)) d = d"
  by (induction d) auto

lemma by_category_update_mset:
  "distinct (map fst d) \<Longrightarrow> c \<in> fst ` set d \<Longrightarrow>
   mset (concat (map snd (map (\<lambda>(k, fs). if k = c then (k, fs @ [f]) else (k, fs)) d))) =
     add_mset f (mset (concat (map snd d)))"
proof (induction d)
  case Nil
  then show ?case by simp
next
  case (Cons e d)
  obtain k fs where e: "e = (k, fs)" by (cases e)
  show ?case
  proof (cases "k = c")
    case True
    with Cons.prems e have "c \<notin> fst ` set d" by auto
    then show ?thesis using True e by (simp add: by_category_update_absent)
  next
    case False
    with Cons.prems e have "c \<in> fst ` set d" "distinct (map fst d)" by auto
    with Cons.IH show ?thesis using False e by simp
  qed
qed

lemma by_category_update_keys:
  "map fst (map (\<lambda>(k, fs). if k = c then (k, fs @ [f]) else (k, fs)) d) = map fst d"
  by (induction d) auto

lemma by_category_add_present:
  "category f \<in> fst ` set d \<Longrightarrow>
   by_category_add f d = map (\<lambda>(k, fs). if k = category f then (k, fs @ [f]) else (k, fs)) d"
  by (simp add: by_category_add_def)

lemma by_category_add_absent:
  "category f \<notin> fst ` set d \<Longrightarrow> by_category_add f d = d @ [(category f, [f])]"
  by (simp add: by_category_add_def)

lemma by_category_add_distinct:
  assumes "distinct (map fst d)"
  shows "distinct (map fst (by_category_add f d))"
proof (cases "category f \<in> fst ` set d")
  case True
  then show ?thesis using assms
    by (simp only: by_category_add_present by_category_update_keys)
next
  case False
  then show ?thesis using assms
    by (simp add: by_category_add_absent)
qed

lemma by_category_add_mset:
  assumes "distinct (map fst d)"
  shows "mset (concat (map snd (by_category_add f d))) = add_mset f (mset (concat (map snd d)))"
proof (cases "category f \<in> fst ` set d")
  case True
  then show ?thesis using assms
    by (simp only: by_category_add_present by_category_update_mset)
next
  case False
  then show ?thesis
    by (simp add: by_category_add_absent)
qed

lemma fold_by_category_add:
  "distinct (map fst d) \<Longrightarrow>
   distinct (map fst (fold by_category_add fs d)) \<and>
   mset (concat (map snd (fold by_category_add fs d))) = mset fs + mset (concat (map snd d))"
proof (induction fs arbitrary: d)
  case Nil
  then show ?case by simp
next
  case (Cons f fs)
  from Cons.prems have "distinct (map fst (by_category_add f d))"
    by (rule by_category_add_distinct)
  from Cons.IH [OF this] Cons.prems show ?case
    by (simp add: by_category_add_mset)
qed

lemma group_by_category_mset:
  "mset (concat (map snd (sort_key fst (group_by_category features)))) = mset features"
proof -
  have "mset (concat (map snd (sort_key fst (group_by_category features)))) =
        mset (concat (map snd (group_by_category features)))"
    by (rule mset_concat_perm) simp
  also have "\<dots> = mset features"
    using fold_by_category_add [of "[]" features] by (simp add: group_by_category_def)
  finally show ?thesis .
qed

lemma consolidate_each_total_steps:
  "consolidate_each pct d = Inr (out, bc) \<Longrightarrow> total_steps (concat (map snd d)) \<le> total_steps out"
proof (induction d arbitrary: out bc)
  case Nil
  then show ?case by simp
next
  case (Cons e d)
  obtain c fs where e: "e = (c, fs)" by (cases e)
  from Cons.prems e obtain o1 o2 bc2 where
    o: "consolidate_category fs c = Inr o1" "consolidate_each pct d = Inr (o2, bc2)" "out = o1 @ o2"
    by (auto split: sum.splits)
  from o(1) have "total_steps fs \<le> total_steps o1"
    using consolidate_category_total_steps by fastforce
  moreover from o(2) have "total_steps (concat (map snd d)) \<le> total_steps o2"
    by (rule Cons.IH)
  ultimately show ?case using e o(3) by (simp add: total_steps_append)
qed

lemma consolidate_each_locates:
  "consolidate_each pct d = Inr (out, bc) \<Longrightarrow> f \<in> set (concat (map snd d)) \<Longrightarrow>
   s \<in> set (steps f) \<Longrightarrow> \<exists>p\<in>set out. step_located s p"
proof (induction d arbitrary: out bc)
  case Nil
  then show ?case by simp
next
  case (Cons e d)
  obtain c fs where e: "e = (c, fs)" by (cases e)
  from Cons.prems(1) e obtain o1 o2 bc2 where
    o: "consolidate_category fs c = Inr o1" "consolidate_each pct d = Inr (o2, bc2)" "out = o1 @ o2"
    by (auto split: sum.splits)
  from Cons.prems(2) e consider "f \<in> set fs" | "f \<in> set (concat (map snd d))" by auto
  then show ?case
  proof cases
    case 1
    from consolidate_category_locates [OF o(1) 1 Cons.prems(3)] o(3) show ?thesis by auto
  next
    case 2
    from Cons.IH [OF o(2) 2 Cons.prems(3)] o(3) show ?thesis by auto
  qed
qed

lemma consolidate_features_Inr:
  assumes "consolidate_features pct features = Inr (out, st)"
  obtains bc where
    "consolidate_each pct (sort_key fst (group_by_category features)) = Inr (out, bc)"
    "st = \<lparr>before = length features, after = length out, by_category = bc\<rparr>"
  using assms by (auto simp: consolidate_features_def split: sum.splits)

lemma consolidate_features_total_steps:
  assumes "consolidate_features pct features = Inr (out, st)"
  shows "total_steps features \<le> total_steps out"
proof -
  from assms obtain bc where
    "consolidate_each pct (sort_key fst (group_by_category features)) = Inr (out, bc)"
    by (rule consolidate_features_Inr)
  then have "total_steps (concat (map snd (sort_key fst (group_by_category features)))) \<le> total_steps out"
    by (rule consolidate_each_total_steps)
  then show ?thesis
    using mset_eq_total_steps [OF group_by_category_mset [of features]] by simp
qed

lemma consolidate_features_locates:
  assumes "consolidate_features pct features = Inr (out, st)"
    and "f \<in> set features" and "s \<in> set (steps f)"
  shows "\<exists>p\<in>set out. step_located s p"
proof -
  from assms(1) obtain bc where
    e: "consolidate_each pct (sort_key fst (group_by_category features)) = Inr (out, bc)"
    by (rule consolidate_features_Inr)
  have "set (concat (map snd (sort_key fst (group_by_category features)))) = set features"
    using group_by_category_mset [of features] by (metis set_mset_mset)
  with assms(2) have "f \<in> set (concat (map snd (sort_key fst (group_by_category features))))"
    by simp
  from consolidate_each_locates [OF e this assms(3)] show ?thesis .
qed

section \<open>When consolidate\_category returns\<close>

lemma has_groups_iff:
  "groups (get_consolidation_rules cat n) = None \<longleftrightarrow> cat \<noteq> lit ''Audio System''"
  by (simp add: get_consolidation_rules_def rules_table_def lit_def)

lemma chunk_index_bound:
  fixes i k n :: nat
  assumes "0 < k" "i * k < n"
  shows "i < (n + k - 1) div k"
proof -
  from assms have "Suc i * k \<le> n + k - 1" by simp
  with assms(1) have "Suc i \<le> (n + k - 1) div k"
    by (simp only: less_eq_div_iff_mult_less_eq)
  then show ?thesis by simp
qed

lemma consolidate_category_parents:
  assumes "3 < length features"
    and "groups (get_consolidation_rules cat (int (length features))) = None"
    and "consolidate_category features cat = Inr out"
  shows "list_all2 (\<lambda>g p. make_parent cat g = Inr p)
           (groups_of (chunk_factor (length features)) features) out"
proof -
  from assms(2) have "cat \<noteq> lit ''Audio System''" by (simp add: has_groups_iff)
  with assms(1,3) have
    "consolidate_groups cat (groups_of (chunk_factor (length features)) features) = Inr out"
    by (simp add: consolidate_category_chunked)
  then show ?thesis by (rule consolidate_groups_Inr_imp)
qed

lemma consolidate_category_length:
  assumes "3 < length features"
    and "groups (get_consolidation_rules cat (int (length features))) = None"
    and "consolidate_category features cat = Inr out"
  shows "length out =
           (length features + chunk_factor (length features) - 1) div chunk_factor (length features)"
  using consolidate_category_parents [OF assms]
  by (simp add: list_all2_lengthD [symmetric] length_groups_of)

lemma groups_of_subset:
  assumes "0 < k" "g \<in> set (groups_of k fs)"
  shows "set g \<subseteq> set fs"
proof -
  from assms(2) have "set g \<subseteq> set (concat (groups_of k fs))" by auto
  with assms(1) show ?thesis by (simp add: concat_groups_of)
qed

lemma consolidate_category_returns_iff:
  assumes "3 < length features"
    and "groups (get_consolidation_rules cat (int (length features))) = None"
  shows "(\<exists>out. consolidate_category features cat = Inr out) \<longleftrightarrow>
         (\<forall>g\<in>set (groups_of (chunk_factor (length features)) features).
            1 < length g \<longrightarrow> str_split (name (hd g)) \<noteq> [])"
proof -
  let ?gs = "groups_of (chunk_factor (length features)) features"
  from assms(2) have "cat \<noteq> lit ''Audio System''" by (simp add: has_groups_iff)
  with assms(1) have c: "consolidate_category features cat = consolidate_groups cat ?gs"
    by (simp add: consolidate_category_chunked)
  have ne: "g \<noteq> []" if "g \<in> set ?gs" for g
    using groups_of_nonempty [OF chunk_factor_pos that] by simp
  have "(\<exists>out. consolidate_groups cat ?gs = Inr out) \<longleftrightarrow> \<not> (\<exists>e. consolidate_groups cat ?gs = Inl e)"
    by (cases "consolidate_groups cat ?gs") simp_all
  also have "\<dots> \<longleftrightarrow> \<not> (\<exists>g\<in>set ?gs. \<exists>e. make_parent cat g = Inl e)"
    by (simp only: consolidate_groups_Inl_iff)
  also have "\<dots> \<longleftrightarrow> (\<forall>g\<in>set ?gs. 1 < length g \<longrightarrow> str_split (name (hd g)) \<noteq> [])"
    using ne by (auto simp: make_parent_Inl_iff)
  finally show ?thesis by (simp only: c)
qed

lemma consolidate_category_returns:
  assumes "\<forall>f\<in>set features. str_split (name f) \<noteq> []"
  shows "\<exists>out. consolidate_category features cat = Inr out"
proof (cases "3 < length features \<and> cat \<noteq> lit ''Audio System''")
  case True
  then have g: "groups (get_consolidation_rules cat (int (length features))) = None"
    by (simp add: has_groups_iff)
  have "str_split (name (hd g)) \<noteq> []"
    if "g \<in> set (groups_of (chunk_factor (length features)) features)" for g
  proof -
    from that have "g \<noteq> []" "set g \<subseteq> set features"
      using groups_of_nonempty [OF chunk_factor_pos that] groups_of_subset [OF chunk_factor_pos that]
      by simp_all
    then have "hd g \<in> set features" by (cases g) auto
    with assms show ?thesis by blast
  qed
  with True g show ?thesis
    by (simp add: consolidate_category_returns_iff)
next
  case False
  then have "consolidate_category features cat = Inr features"
    using consolidate_category_small [of features cat] consolidate_category_audio [of features]
    by (cases "length features \<le> 3") auto
  then show ?thesis by blast
qed

lemma consolidate_category_shrinks:
  assumes "3 < length features"
    and "groups (get_consolidation_rules cat (int (length features))) = None"
    and "consolidate_category features cat = Inr out"
  shows "length out < length features"
proof -
  have "length out =
          (length features + chunk_factor (length features) - 1) div chunk_factor (length features)"
    using assms by (rule consolidate_category_length)
  with assms(1) show ?thesis
    by (simp add: chunk_factor_def split: if_splits)
qed

section \<open>Evaluation on test data\<close>

lemma groups_of_Cons:
  "0 < k \<Longrightarrow> groups_of k (f # fs) = take k (f # fs) # groups_of k (drop k (f # fs))"
  by (rule groups_of_rec) simp_all

lemmas eval_defs =
  consolidate_category_def get_consolidation_rules_def rules_table_def lit_def chunk_factor_def
  groups_of_Cons groups_of_Nil make_parent_def parent_name_def str_split_def isspace_def
  parent_description_def merge_steps_def child_lines_def status_icon_def
  sample_feature_def sample_features_def blank_features_def str_of_nat.simps
  is_substring_def step_located_def records_containing_def

lemma from_row_to_row: "from_row (to_row f) = Inr f"
  by (cases f) (simp add: from_row_def to_row_def)

lemma from_rows_to_row: "from_rows (map to_row fs) = Inr fs"
  by (induction fs) (simp_all add: from_row_to_row)

lemma get_all_features_sample:
  "get_all_features sample_db = Inr (rev sample_features)"
proof -
  have "sort_key col_priority (map to_row sample_features) = map to_row (rev sample_features)"
    by (simp add: sample_features_def sample_feature_def to_row_def)
  then show ?thesis
    by (simp add: get_all_features_def sample_db_def from_rows_to_row)
qed

lemma group_by_category_sample:
  "sort_key fst (group_by_category (rev sample_features)) = [(lit ''Core'', rev sample_features)]"
  by (simp add: group_by_category_def by_category_add_def sample_features_def sample_feature_def)

lemma consolidate_all_sample_returns:
  "isl (consolidate_all sample_pct sample_db True) = False"
proof -
  have "isl (consolidate_category (rev sample_features) (lit ''Core'')) = False"
    by (simp add: eval_defs)
  then obtain out where "consolidate_category (rev sample_features) (lit ''Core'') = Inr out"
    by (cases "consolidate_category (rev sample_features) (lit ''Core'')") simp_all
  then show ?thesis
    by (simp add: consolidate_all_def get_all_features_sample consolidate_features_def
        group_by_category_sample)
qed

section \<open>The claims about consolidate\_category\<close>

text \<open>
  Claim C5. In a category that is chunked (more than 3 records, no partition of its own),
  the parent made from the \<open>i\<close>-th chunk has the id of the chunk's first record, the least
  priority of the chunk, \<open>passes\<close> as the conjunction and \<open>in_progress\<close> and \<open>deferred\<close>
  as the disjunction of the children's flags, and no \<open>blocked_by_intervention_id\<close>.
\<close>

theorem parent_fields:
  assumes "3 < length features"
    and "groups (get_consolidation_rules cat (int (length features))) = None"
    and "consolidate_category features cat = Inr out"
    and "i * chunk_factor (length features) < length features"
  shows "i < length out \<and>
         (let k = chunk_factor (length features);
              chunk = take k (drop (i * k) features);
              parent = out ! i
          in chunk \<noteq> [] \<and>
             feature_id parent = feature_id (hd chunk) \<and>
             priority parent = Min (priority ` set chunk) \<and>
             (passes parent \<longleftrightarrow> (\<forall>f\<in>set chunk. passes f)) \<and>
             (in_progress parent \<longleftrightarrow> (\<exists>f\<in>set chunk. in_progress f)) \<and>
             (deferred parent \<longleftrightarrow> (\<exists>f\<in>set chunk. deferred f)) \<and>
             blocked_by_intervention_id parent = None)"
proof -
  let ?k = "chunk_factor (length features)"
  let ?gs = "groups_of ?k features"
  let ?g = "take ?k (drop (i * ?k) features)"
  have all2: "list_all2 (\<lambda>g p. make_parent cat g = Inr p) ?gs out"
    using assms(1-3) by (rule consolidate_category_parents)
  have len: "length out = length ?gs"
    using all2 by (simp add: list_all2_lengthD)
  have i: "i < length ?gs"
    using chunk_index_bound [OF chunk_factor_pos assms(4)] by (simp add: length_groups_of)
  then have g: "?gs ! i = ?g" by (rule groups_of_nth)
  from all2 i have mp: "make_parent cat ?g = Inr (out ! i)"
    using list_all2_nthD [OF all2 i] g by simp
  note f = make_parent_Inr [OF mp]
  have ne: "?g \<noteq> []" by (rule f(1))
  then have "min_list (map priority ?g) = Min (set (map priority ?g))"
    by (simp add: min_list_Min)
  then have pr: "priority (out ! i) = Min (priority ` set ?g)"
    using f(3) by simp
  show ?thesis
    unfolding Let_def
    using i len ne f(2,9) pr f(7,8,10)
    by (simp add: list_all_iff list_ex_iff)
qed

theorem parent_fields_witness:
  "0 < length (projr (consolidate_category sample_features (lit ''Core''))) \<and>
   feature_id (projr (consolidate_category sample_features (lit ''Core'')) ! 0) = 1 \<and>
   priority (projr (consolidate_category sample_features (lit ''Core'')) ! 0) = 7 \<and>
   passes (projr (consolidate_category sample_features (lit ''Core'')) ! 0) = False \<and>
   in_progress (projr (consolidate_category sample_features (lit ''Core'')) ! 0) = True \<and>
   deferred (projr (consolidate_category sample_features (lit ''Core'')) ! 0) = False \<and>
   blocked_by_intervention_id (projr (consolidate_category sample_features (lit ''Core'')) ! 0) = None"
proof -
  let ?out = "projr (consolidate_category sample_features (lit ''Core''))"
  have "\<not> isl (consolidate_category sample_features (lit ''Core''))"
    by (simp add: eval_defs)
  then have r: "consolidate_category sample_features (lit ''Core'') = Inr ?out"
    by (cases "consolidate_category sample_features (lit ''Core'')") simp_all
  have l: "3 < length sample_features"
    by (simp add: sample_features_def)
  have g: "groups (get_consolidation_rules (lit ''Core'') (int (length sample_features))) = None"
    by (simp add: has_groups_iff lit_def)
  have i: "0 * chunk_factor (length sample_features) < length sample_features"
    by (simp add: sample_features_def)
  have m: "Min (priority ` set (take 3 sample_features)) = 7"
    by (simp add: sample_features_def sample_feature_def)
  show ?thesis
    using parent_fields [OF l g r i] m
    by (simp add: Let_def chunk_factor_def sample_features_def sample_feature_def)
qed

text \<open>
  Claim C4. A category without a partition of its own and with more than 3 records is cut
  into chunks of 4 records when it has more than 50 records and of 3 records otherwise:
  the output has one parent for each chunk, so 13 records for 51 and 17 records for 50.
\<close>

theorem chunk_factor_selection:
  assumes "3 < length features"
    and "groups (get_consolidation_rules cat (int (length features))) = None"
    and "consolidate_category features cat = Inr out"
  shows "chunk_factor (length features) = (if 50 < length features then 4 else 3) \<and>
         length out =
           (length features + chunk_factor (length features) - 1)
             div chunk_factor (length features) \<and>
         (\<forall>i<length out.
            make_parent cat
              (take (chunk_factor (length features))
                 (drop (i * chunk_factor (length features)) features)) = Inr (out ! i)) \<and>
         (length features = 51 \<longrightarrow> length out = 13) \<and>
         (length features = 50 \<longrightarrow> length out = 17)"
proof -
  let ?k = "chunk_factor (length features)"
  let ?gs = "groups_of ?k features"
  have all2: "list_all2 (\<lambda>g p. make_parent cat g = Inr p) ?gs out"
    using assms by (rule consolidate_category_parents)
  have len: "length out = (length features + ?k - 1) div ?k"
    using assms by (rule consolidate_category_length)
  have nth: "make_parent cat (take ?k (drop (i * ?k) features)) = Inr (out ! i)"
    if "i < length out" for i
  proof -
    from that all2 have i: "i < length ?gs" by (simp add: list_all2_lengthD)
    from list_all2_nthD [OF all2 i] groups_of_nth [OF i] show ?thesis by simp
  qed
  have k: "?k = (if 50 < length features then 4 else 3)"
    by (simp add: chunk_factor_def)
  have a: "length features = 51 \<longrightarrow> length out = 13"
    using len by (simp add: chunk_factor_def)
  have b: "length features = 50 \<longrightarrow> length out = 17"
    using len by (simp add: chunk_factor_def)
  from k len nth a b show ?thesis by blast
qed

theorem chunk_factor_selection_witness:
  "isl (consolidate_category (replicate 51 (hd sample_features)) (lit ''Core'')) = False \<and>
   length (projr (consolidate_category (replicate 51 (hd sample_features)) (lit ''Core''))) = 13 \<and>
   isl (consolidate_category (replicate 50 (hd sample_features)) (lit ''Core'')) = False \<and>
   length (projr (consolidate_category (replicate 50 (hd sample_features)) (lit ''Core''))) = 17"
proof -
  let ?f = "hd sample_features"
  have nm: "str_split (name ?f) \<noteq> []"
    by (simp add: eval_defs)
  have g: "groups (get_consolidation_rules (lit ''Core'') n) = None" for n
    by (simp add: has_groups_iff lit_def)
  have ret: "\<exists>out. consolidate_category (replicate n ?f) (lit ''Core'') = Inr out" for n
    by (rule consolidate_category_returns) (simp add: nm)
  from ret [of 51] obtain o1 where
    o1: "consolidate_category (replicate 51 ?f) (lit ''Core'') = Inr o1" by blast
  from ret [of 50] obtain o2 where
    o2: "consolidate_category (replicate 50 ?f) (lit ''Core'') = Inr o2" by blast
  have "length o1 = 13"
    using chunk_factor_selection [OF _ g o1] by simp
  moreover have "length o2 = 17"
    using chunk_factor_selection [OF _ g o2] by simp
  ultimately show ?thesis using o1 o2 by simp
qed

text \<open>
  Claim C10. On the chunked path \<open>consolidate_category\<close> returns exactly when, in every
  chunk of more than one record, the name of the first record has a character that is
  not white space. When some such name is empty or white space only, the call raises
  IndexError and returns no list.
\<close>

theorem consolidate_category_total_iff:
  assumes "3 < length features"
    and "groups (get_consolidation_rules cat (int (length features))) = None"
  shows "((\<exists>out. consolidate_category features cat = Inr out) \<longleftrightarrow>
            (\<forall>g\<in>set (groups_of (chunk_factor (length features)) features).
               1 < length g \<longrightarrow> (\<exists>c\<in>set (name (hd g)). \<not> isspace c))) \<and>
         (consolidate_category features cat = Inl IndexError \<longleftrightarrow>
            (\<exists>g\<in>set (groups_of (chunk_factor (length features)) features).
               1 < length g \<and> (\<forall>c\<in>set (name (hd g)). isspace c)))"
proof -
  let ?gs = "groups_of (chunk_factor (length features)) features"
  let ?ok = "\<forall>g\<in>set ?gs. 1 < length g \<longrightarrow> (\<exists>c\<in>set (name (hd g)). \<not> isspace c)"
  have r: "(\<exists>out. consolidate_category features cat = Inr out) \<longleftrightarrow> ?ok"
    using consolidate_category_returns_iff [OF assms]
    by (simp add: str_split_Nil_iff)
  from assms(2) have "cat \<noteq> lit ''Audio System''" by (simp add: has_groups_iff)
  with assms(1) have c: "consolidate_category features cat = consolidate_groups cat ?gs"
    by (simp add: consolidate_category_chunked)
  have "consolidate_category features cat = Inl IndexError \<longleftrightarrow>
        \<not> (\<exists>out. consolidate_category features cat = Inr out)"
    using consolidate_groups_Inl_IndexError [of cat ?gs]
    by (cases "consolidate_groups cat ?gs") (auto simp: c)
  also have "\<dots> \<longleftrightarrow> \<not> ?ok" by (simp only: r)
  also have "\<dots> \<longleftrightarrow> (\<exists>g\<in>set ?gs. 1 < length g \<and> (\<forall>c\<in>set (name (hd g)). isspace c))"
    by blast
  finally show ?thesis using r by blast
qed

theorem consolidate_category_total_iff_witness:
  "consolidate_category blank_features (lit ''Core'') = Inl IndexError \<and>
   isl (consolidate_category sample_features (lit ''Core'')) = False"
proof -
  have l: "3 < length blank_features" "3 < length sample_features"
    by (simp_all add: blank_features_def sample_features_def)
  have g: "groups (get_consolidation_rules (lit ''Core'') n) = None" for n
    by (simp add: has_groups_iff lit_def)
  have b: "\<exists>g\<in>set (groups_of (chunk_factor (length blank_features)) blank_features).
             1 < length g \<and> (\<forall>c\<in>set (name (hd g)). isspace c)"
    by (simp add: eval_defs)
  have s: "\<forall>g\<in>set (groups_of (chunk_factor (length sample_features)) sample_features).
             1 < length g \<longrightarrow> (\<exists>c\<in>set (name (hd g)). \<not> isspace c)"
    by (simp add: eval_defs)
  from consolidate_category_total_iff [OF l(1) g] b
  have "consolidate_category blank_features (lit ''Core'') = Inl IndexError" by blast
  moreover from consolidate_category_total_iff [OF l(2) g] s
  obtain out where "consolidate_category sample_features (lit ''Core'') = Inr out" by blast
  ultimately show ?thesis by simp
qed

text \<open>
  Claim C6. Whenever consolidation returns, the steps of its output are at least as many
  as the steps of its input: for one category, and for all the features read from the
  store.
\<close>

theorem total_steps_never_decrease:
  "(consolidate_category features cat = Inr out \<longrightarrow> total_steps features \<le> total_steps out) \<and>
   (get_all_features d = Inr original \<and> consolidate_all pct d dry = Inr (consolidated, st) \<longrightarrow>
      total_steps original \<le> total_steps consolidated)"
proof (intro conjI impI)
  assume "consolidate_category features cat = Inr out"
  from consolidate_category_total_steps [OF this]
  show "total_steps features \<le> total_steps out" by auto
next
  assume a: "get_all_features d = Inr original \<and> consolidate_all pct d dry = Inr (consolidated, st)"
  then have "consolidate_features pct original = Inr (consolidated, st)"
    by (auto simp: consolidate_all_def)
  then show "total_steps original \<le> total_steps consolidated"
    by (rule consolidate_features_total_steps)
qed

theorem total_steps_never_decrease_witness:
  "isl (consolidate_category sample_features (lit ''Core'')) = False \<and>
   total_steps sample_features = 3 \<and>
   3 \<le> total_steps (projr (consolidate_category sample_features (lit ''Core''))) \<and>
   isl (get_all_features sample_db) = False \<and>
   isl (consolidate_all sample_pct sample_db True) = False \<and>
   total_steps (projr (get_all_features sample_db))
     \<le> total_steps (fst (projr (consolidate_all sample_pct sample_db True)))"
proof -
  let ?c = "consolidate_category sample_features (lit ''Core'')"
  let ?a = "consolidate_all sample_pct sample_db True"
  have ic: "isl ?c = False" by (simp add: eval_defs)
  then have c: "?c = Inr (projr ?c)" by (cases ?c) simp_all
  have ia: "isl ?a = False" by (rule consolidate_all_sample_returns)
  then have a: "?a = Inr (fst (projr ?a), snd (projr ?a))" by (cases ?a) simp_all
  have g: "get_all_features sample_db = Inr (rev sample_features)"
    by (rule get_all_features_sample)
  have t: "total_steps sample_features = 3"
    by (simp add: total_steps_def sample_features_def sample_feature_def)
  from total_steps_never_decrease
    [of sample_features "lit ''Core''" "projr ?c" sample_db "rev sample_features" sample_pct True
        "fst (projr ?a)" "snd (projr ?a)"]
  show ?thesis using c a g t ic ia by simp
qed

text \<open>
  Claim C1, as amended. Whenever consolidation returns, every step of every input record
  is a substring of a step of at least one output record. It can be located in more than
  one output record: two records may have the same step, and the counterexample below has
  such a step in both parents.
\<close>

theorem steps_located_after_consolidation:
  "(consolidate_category features cat = Inr out \<longrightarrow>
      (\<forall>f\<in>set features. \<forall>s\<in>set (steps f). \<exists>p\<in>set out. step_located s p)) \<and>
   (get_all_features d = Inr original \<and> consolidate_all pct d dry = Inr (consolidated, st) \<longrightarrow>
      (\<forall>f\<in>set original. \<forall>s\<in>set (steps f). \<exists>p\<in>set consolidated. step_located s p))"
proof (intro conjI impI ballI)
  fix f s
  assume "consolidate_category features cat = Inr out" "f \<in> set features" "s \<in> set (steps f)"
  then show "\<exists>p\<in>set out. step_located s p"
    by (rule consolidate_category_locates)
next
  fix f s
  assume a: "get_all_features d = Inr original \<and> consolidate_all pct d dry = Inr (consolidated, st)"
    and f: "f \<in> set original" "s \<in> set (steps f)"
  from a have "consolidate_features pct original = Inr (consolidated, st)"
    by (auto simp: consolidate_all_def)
  from this f show "\<exists>p\<in>set consolidated. step_located s p"
    by (rule consolidate_features_locates)
qed

theorem steps_located_after_consolidation_witness:
  "isl (consolidate_category sample_features (lit ''Core'')) = False \<and>
   list_ex (step_located (lit ''Click logout''))
     (projr (consolidate_category sample_features (lit ''Core''))) \<and>
   isl (consolidate_all sample_pct sample_db True) = False \<and>
   list_ex (step_located (lit ''Click logout''))
     (fst (projr (consolidate_all sample_pct sample_db True)))"
proof -
  let ?c = "consolidate_category sample_features (lit ''Core'')"
  let ?a = "consolidate_all sample_pct sample_db True"
  let ?f = "sample_features ! 1"
  have "isl ?c = False" by (simp add: eval_defs)
  then have c: "?c = Inr (projr ?c)" by (cases ?c) simp_all
  have ia: "isl ?a = False" by (rule consolidate_all_sample_returns)
  then have a: "?a = Inr (fst (projr ?a), snd (projr ?a))" by (cases ?a) simp_all
  have g: "get_all_features sample_db = Inr (rev sample_features)"
    by (rule get_all_features_sample)
  have f: "?f \<in> set sample_features" "?f \<in> set (rev sample_features)"
    by (simp_all add: sample_features_def)
  have s: "lit ''Click logout'' \<in> set (steps ?f)"
    by (simp add: sample_features_def sample_feature_def)
  note th = steps_located_after_consolidation
    [of sample_features "lit ''Core''" "projr ?c" sample_db "rev sample_features" sample_pct True
        "fst (projr ?a)" "snd (projr ?a)"]
  from th c f(1) s have 1: "\<exists>p\<in>set (projr ?c). step_located (lit ''Click logout'') p"
    by blast
  from th a g f(2) s have 2: "\<exists>p\<in>set (fst (projr ?a)). step_located (lit ''Click logout'') p"
    by blast
  from 1 2 \<open>isl ?c = False\<close> ia show ?thesis
    by (simp add: list_ex_iff)
qed

theorem step_located_in_two_records:
  "lit ''Run tests'' \<in> set (steps (sample_features ! 0)) \<and>
   isl (consolidate_category sample_features (lit ''Core'')) = False \<and>
   length (records_containing (lit ''Run tests'')
     (projr (consolidate_category sample_features (lit ''Core'')))) = 2"
  by (simp add: eval_defs)

text \<open>
  Claim C2. A list of at most 3 records is returned as it is. A longer list of a category
  without a partition of its own comes back shorter when the call returns, but the four
  records of the category Audio System come back as they are, four records.
\<close>

theorem audio_category_not_reduced:
  "length audio_features = 4 \<and>
   consolidate_category audio_features (lit ''Audio System'') = Inr audio_features \<and>
   map_sum id length (consolidate_category audio_features (lit ''Audio System'')) = Inr 4"
proof -
  have "length audio_features = 4"
    by (simp add: audio_features_def sample_features_def)
  then show ?thesis by (simp add: consolidate_category_audio)
qed

text \<open>
  Claim C3. The rules of the category Audio System hold a hand-written partition, and
  \<open>consolidate_category\<close> never reads it: every list of records of that category is
  returned as it is, with no parent made and no name of the partition given. The four
  records of \<open>audio_features\<close> lie in the first range of the partition, from 0 to 10,
  whose name is not the name of any record returned.
\<close>

theorem audio_partition_not_applied:
  "groups (get_consolidation_rules (lit ''Audio System'') n) = Some audio_groups \<and>
   consolidation_factor (get_consolidation_rules (lit ''Audio System'') n) = None \<and>
   consolidate_category features (lit ''Audio System'') = Inr features \<and>
   hd audio_groups = (0, 10, lit ''Setup Audio Infrastructure'') \<and>
   consolidate_category audio_features (lit ''Audio System'') = Inr audio_features \<and>
   map name audio_features =
     [lit ''Add login form'', lit ''Add logout'', lit ''Add session'', lit ''Render board'']"
  by (simp add: consolidate_category_audio get_consolidation_rules_def rules_table_def
      audio_groups_def audio_features_def sample_features_def sample_feature_def)

section \<open>The claims about validate and main\<close>

lemma validate_result:
  "snd (validate original consolidated) =
     (if \<not> length consolidated < length original then
        Inl (AssertionError (lit ''No consolidation happened!''))
      else if \<not> (length consolidated \<ge> 250 \<and> length consolidated \<le> 600) then
        Inl (AssertionError (lit ''Target range missed: '' @ str_of_nat (length consolidated)))
      else Inr ())"
  by (simp add: validate_def Let_def)

lemma validate_printed_pass:
  "length consolidated < length original \<Longrightarrow> 250 \<le> length consolidated \<Longrightarrow>
   length consolidated \<le> 600 \<Longrightarrow>
   fst (validate original consolidated) =
     [ValidationOriginalFeatures (length original),
      ValidationConsolidatedFeatures (length consolidated),
      ValidationOriginalSteps (total_steps original),
      ValidationConsolidatedSteps (total_steps consolidated),
      (if total_steps consolidated < total_steps original then StepCountDecreased
       else StepsPreserved (total_steps consolidated - total_steps original)),
      ValidationPassed]"
  by (simp add: validate_def Let_def)

text \<open>
  Claim C7. \<open>validate\<close> raises exactly when the consolidated list is not shorter than the
  original one or its length is outside 250 to 600, and what it raises is an
  AssertionError. Within these bounds it returns whatever the step counts are; fewer steps
  than before only print the warning.
\<close>

theorem validate_raises_iff:
  "((\<exists>e. snd (validate original consolidated) = Inl e) \<longleftrightarrow>
      (length original \<le> length consolidated \<or> length consolidated < 250 \<or>
       600 < length consolidated)) \<and>
   (\<forall>e. snd (validate original consolidated) = Inl e \<longrightarrow> (\<exists>msg. e = AssertionError msg)) \<and>
   (length consolidated < length original \<and> 250 \<le> length consolidated \<and>
    length consolidated \<le> 600 \<longrightarrow>
      snd (validate original consolidated) = Inr () \<and>
      (StepCountDecreased \<in> set (fst (validate original consolidated)) \<longleftrightarrow>
         total_steps consolidated < total_steps original))"
proof (intro conjI allI impI)
  show "(\<exists>e. snd (validate original consolidated) = Inl e) \<longleftrightarrow>
      (length original \<le> length consolidated \<or> length consolidated < 250 \<or>
       600 < length consolidated)"
    by (auto simp: validate_result)
next
  fix e
  assume "snd (validate original consolidated) = Inl e"
  then show "\<exists>msg. e = AssertionError msg"
    by (auto simp: validate_result split: if_splits)
next
  assume "length consolidated < length original \<and> 250 \<le> length consolidated \<and>
    length consolidated \<le> 600"
  then show "snd (validate original consolidated) = Inr ()"
    by (simp add: validate_result)
next
  assume a: "length consolidated < length original \<and> 250 \<le> length consolidated \<and>
    length consolidated \<le> 600"
  then show "StepCountDecreased \<in> set (fst (validate original consolidated)) \<longleftrightarrow>
         total_steps consolidated < total_steps original"
    by (simp add: validate_printed_pass)
qed

theorem validate_raises_iff_witness:
  "snd (validate (replicate 251 (sample_features ! 0)) (replicate 250 (sample_features ! 2))) = Inr () \<and>
   StepCountDecreased
     \<in> set (fst (validate (replicate 251 (sample_features ! 0)) (replicate 250 (sample_features ! 2)))) \<and>
   isl (snd (validate sample_features sample_features)) = True \<and>
   isl (snd (validate (replicate 251 (sample_features ! 0)) (replicate 249 (sample_features ! 2)))) = True"
proof -
  let ?o = "replicate 251 (sample_features ! 0)"
  let ?c = "replicate 250 (sample_features ! 2)"
  let ?c2 = "replicate 249 (sample_features ! 2)"
  have t: "total_steps ?c < total_steps ?o"
    by (simp add: total_steps_def sample_features_def sample_feature_def sum_list_replicate)
  have l: "length ?c < length ?o \<and> 250 \<le> length ?c \<and> length ?c \<le> 600"
    by simp
  from validate_raises_iff [of ?o ?c] l t
  have 1: "snd (validate ?o ?c) = Inr ()" "StepCountDecreased \<in> set (fst (validate ?o ?c))"
    by blast+
  from validate_raises_iff [of sample_features sample_features]
  obtain e where "snd (validate sample_features sample_features) = Inl e" by auto
  then have 2: "isl (snd (validate sample_features sample_features)) = True" by simp
  have "length ?c2 < 250" by simp
  with validate_raises_iff [of ?o ?c2]
  obtain e2 where "snd (validate ?o ?c2) = Inl e2" by blast
  then have 3: "isl (snd (validate ?o ?c2)) = True" by simp
  from 1 2 3 show ?thesis by simp
qed

lemma main_without_execute:
  "\<not> execute a \<Longrightarrow> fst (main pct F a d) = d"
  by (simp add: main_def split: sum.splits prod.splits)

text \<open>
  Claim C9. A run with \<open>--dry-run\<close> and without \<open>--execute\<close> returns the store as it
  found it, and a second such run on the store it leaves prints the same lines (the counts
  before and after, the reduction, the lines of the categories) and ends the same way.
\<close>

theorem preview_leaves_store_unchanged:
  assumes "dry_run a" and "\<not> execute a"
  shows "fst (main pct F a d) = d \<and> main pct F a (fst (main pct F a d)) = main pct F a d"
  using assms by (simp add: main_without_execute)

theorem preview_leaves_store_unchanged_witness:
  "fst (main sample_pct no_faults preview sample_db) = sample_db \<and>
   main sample_pct no_faults preview (fst (main sample_pct no_faults preview sample_db)) =
     main sample_pct no_faults preview sample_db"
proof -
  have "dry_run preview" "\<not> execute preview"
    by (simp_all add: preview_def)
  then show ?thesis
    by (rule preview_leaves_store_unchanged)
qed

lemma main_sample_preview:
  "fst (snd (main sample_pct no_faults preview sample_db)) =
     [Banner True, StatsOriginal 4, StatsConsolidated 2, StatsReduction [],
      StatsCategory (lit ''Core'') 4 2 [],
      ValidationOriginalFeatures 4, ValidationConsolidatedFeatures 2,
      ValidationOriginalSteps 3, ValidationConsolidatedSteps 7] \<and>
   snd (snd (main sample_pct no_faults preview sample_db)) =
     Inl (AssertionError (lit ''Target range missed: 2''))"
proof -
  let ?cc = "consolidate_category (rev sample_features) (lit ''Core'')"
  have "isl ?cc = False" by (simp add: eval_defs)
  then obtain out where o: "?cc = Inr out" by (cases ?cc) simp_all
  have "length (projr ?cc) = 2" by (simp add: eval_defs)
  with o have len: "length out = 2" by simp
  have "total_steps (projr ?cc) = 7" by (simp add: eval_defs total_steps_def)
  with o have ts: "total_steps out = 7" by simp
  have n: "length sample_features = 4" "total_steps (rev sample_features) = 3"
    by (simp_all add: sample_features_def sample_feature_def total_steps_def)
  have c: "consolidate_all sample_pct sample_db True =
      Inr (out,
           \<lparr>before = 4, after = 2,
            by_category = [(lit ''Core'', \<lparr>cat_before = 4, cat_after = 2, cat_reduction = []\<rparr>)]\<rparr>)"
    using o len n(1)
    by (simp add: consolidate_all_def get_all_features_sample consolidate_features_def
        group_by_category_sample sample_pct_def)
  have v: "validate (rev sample_features) out =
      ([ValidationOriginalFeatures 4, ValidationConsolidatedFeatures 2,
        ValidationOriginalSteps 3, ValidationConsolidatedSteps 7],
       Inl (AssertionError (lit ''Target range missed: 2'')))"
    using len ts n by (simp add: validate_def Let_def str_of_nat.simps lit_def)
  show ?thesis
    by (simp add: main_def preview_def get_all_features_sample c v stats_lines_def sample_pct_def)
qed

lemma main_execute_ignores_dry_run:
  assumes "execute a"
    and "get_all_features d = Inr original"
    and "consolidate_all pct d (dry_run a) = Inr (consolidated, st)"
    and "before st \<noteq> 0"
    and "snd (validate original consolidated) = Inr ()"
  shows "fst (main pct F a d) = fst (execute_migration F consolidated d)"
  using assms
  by (cases "validate original consolidated")
     (simp add: main_def split: sum.splits prod.splits)

section \<open>The claim about execute\_migration\<close>




































end
